theory Spec2Isabelle
  imports Main "HOL-Library.Word"
begin

unbundle bit_operations_syntax

section \<open>Shared types\<close>

type_synonym u32 = "32 word"

text \<open>
  The process-wide generator behind \<open>rand()\<close>: the sequence of C ints it produces
  and the number of calls made so far. \<open>rand\<close> returns the next element and
  advances.
\<close>

record rand_state =
  rand_seq :: "nat \<Rightarrow> int"
  rand_pos :: nat

definition rand :: "rand_state \<Rightarrow> int \<times> rand_state" where
  "rand g = (rand_seq g (rand_pos g), g\<lparr>rand_pos := Suc (rand_pos g)\<rparr>)"

definition LARGE_PRIME :: u32 where
  "LARGE_PRIME = 2147483647"

text \<open>
  The expression \<open>rand() % (LARGE_PRIME - 1)\<close>, stored into an \<open>int\<close>: the int
  returned by \<open>rand()\<close> is converted to \<open>uint32_t\<close>, reduced, and the result (below
  \<open>2^31\<close>) is stored as an int.
\<close>

definition rand_coeff :: "rand_state \<Rightarrow> int \<times> rand_state" where
  "rand_coeff g = (case rand g of (r, g') \<Rightarrow>
     (uint ((word_of_int r :: u32) mod (LARGE_PRIME - 1)), g'))"

text \<open>One entry in a dictionary (class \<open>entry\<close>).\<close>

datatype 'v entry = Entry (entry_key: u32) (entry_value: 'v)

text \<open>
  \<open>std::out_of_range\<close> is what \<open>search\<close> throws; \<open>std::length_error\<close> is what the
  comment on \<open>abstract_dict::set\<close> announces and no code throws.
\<close>

datatype exn = Out_of_range | Length_error

section \<open>Hash functions\<close>

text \<open>
  Order-2 polynomial \<open>h(x) = a0 + a1*x\<close>. The coefficients are C ints; in
  \<open>a0 + key * a1\<close> they are converted to \<open>uint32_t\<close> and the arithmetic wraps.
\<close>

record poly2_hash_func =
  p2_a0 :: int
  p2_a1 :: int

definition poly2_hash_func_new :: "rand_state \<Rightarrow> poly2_hash_func \<times> rand_state" where
  "poly2_hash_func_new g =
     (case rand_coeff g of (c0, g1) \<Rightarrow>
      case rand_coeff g1 of (c1, g2) \<Rightarrow>
        (\<lparr>p2_a0 = c0, p2_a1 = c1\<rparr>, g2))"

definition poly2_hash :: "poly2_hash_func \<Rightarrow> u32 \<Rightarrow> u32" where
  "poly2_hash h key = word_of_int (p2_a0 h) + key * word_of_int (p2_a1 h)"

text \<open>
  The constructor loops of \<open>poly5_hash_func\<close> and \<open>tabular_hash_func\<close>:
  \<open>n\<close> successive draws of \<open>rand() % (LARGE_PRIME - 1)\<close>, in order.
\<close>

fun fill_coeffs :: "nat \<Rightarrow> rand_state \<Rightarrow> int list \<times> rand_state" where
  "fill_coeffs 0 g = ([], g)"
| "fill_coeffs (Suc n) g =
     (case rand_coeff g of (c, g1) \<Rightarrow>
      case fill_coeffs n g1 of (cs, g2) \<Rightarrow> (c # cs, g2))"

text \<open>Order-5 polynomial in Horner form, five coefficients \<open>a[0..4]\<close>.\<close>

record poly5_hash_func =
  p5_a :: "int list"

definition poly5_hash_func_new :: "rand_state \<Rightarrow> poly5_hash_func \<times> rand_state" where
  "poly5_hash_func_new g = (case fill_coeffs 5 g of (cs, g') \<Rightarrow> (\<lparr>p5_a = cs\<rparr>, g'))"

definition poly5_hash :: "poly5_hash_func \<Rightarrow> u32 \<Rightarrow> u32" where
  "poly5_hash h key =
     (let a = (\<lambda>i. word_of_int (p5_a h ! i) :: u32)
      in a 0 + key * (a 1 + key * (a 2 + key * (a 3 + key * a 4))))"

text \<open>
  Tabular hash: four rows of 256 ints, filled row by row; \<open>hash\<close> XORs the row
  entries selected by the four bytes of the key.
\<close>

record tabular_hash_func =
  tab_t :: "int list list"

fun fill_rows :: "nat \<Rightarrow> nat \<Rightarrow> rand_state \<Rightarrow> int list list \<times> rand_state" where
  "fill_rows 0 m g = ([], g)"
| "fill_rows (Suc n) m g =
     (case fill_coeffs m g of (row, g1) \<Rightarrow>
      case fill_rows n m g1 of (rows, g2) \<Rightarrow> (row # rows, g2))"

definition tabular_hash_func_new :: "rand_state \<Rightarrow> tabular_hash_func \<times> rand_state" where
  "tabular_hash_func_new g = (case fill_rows 4 256 g of (rows, g') \<Rightarrow> (\<lparr>tab_t = rows\<rparr>, g'))"

definition tabular_hash :: "tabular_hash_func \<Rightarrow> u32 \<Rightarrow> u32" where
  "tabular_hash h key =
     fold (\<lambda>i hashValue.
             hashValue XOR word_of_int (tab_t h ! i ! unat (drop_bit (i * 8) key AND 0xFF)))
          [0..<4] 0"

section \<open>Dictionaries\<close>

text \<open>
  Every dictionary is a record of its private members; \<open>set\<close> returns the updated
  record. \<open>search\<close> is a non-const member function, so it returns the record it
  leaves behind next to its result: \<open>Inr\<close> the value found, \<open>Inl Out_of_range\<close> for
  the exception. The member \<open>capacity_\<close> is a C int holding the constructor's
  argument; the driver passes a positive int, for which the conversions in
  \<open>hash % capacity_\<close> preserve the value, so it is a \<open>nat\<close> here. A capacity of 0
  makes that expression a division by zero in the source; the theorems assume a
  positive capacity.
\<close>

subsection \<open>Naive dictionary (unsorted vector)\<close>

record 'v naive_dict =
  naive_entries :: "'v entry list"

definition naive_dict_new :: "nat \<Rightarrow> 'v naive_dict" where
  "naive_dict_new capacity = \<lparr>naive_entries = []\<rparr>"

text \<open>\<open>std::find_if\<close>: the position of the first match, the length for \<open>end()\<close>.\<close>

fun find_if :: "('a \<Rightarrow> bool) \<Rightarrow> 'a list \<Rightarrow> nat" where
  "find_if p [] = 0"
| "find_if p (x # xs) = (if p x then 0 else Suc (find_if p xs))"

definition search_iterator :: "'v naive_dict \<Rightarrow> u32 \<Rightarrow> nat" where
  "search_iterator d key = find_if (\<lambda>e. entry_key e = key) (naive_entries d)"

definition naive_search :: "'v naive_dict \<Rightarrow> u32 \<Rightarrow> (exn + 'v) \<times> 'v naive_dict" where
  "naive_search d key =
     (let iter = search_iterator d key
      in if iter \<noteq> length (naive_entries d)
         then (Inr (entry_value (naive_entries d ! iter)), d)
         else (Inl Out_of_range, d))"

definition naive_set :: "'v naive_dict \<Rightarrow> u32 \<Rightarrow> 'v \<Rightarrow> 'v naive_dict" where
  "naive_set d key val =
     (let iter = search_iterator d key
      in if iter \<noteq> length (naive_entries d)
         then d\<lparr>naive_entries :=
                  (naive_entries d)[iter := Entry (entry_key (naive_entries d ! iter)) val]\<rparr>
         else d\<lparr>naive_entries := naive_entries d @ [Entry key val]\<rparr>)"

subsection \<open>Separate chaining\<close>

record 'v chain_dict =
  chain_entries :: "'v entry list list"
  chain_hashFunction :: poly2_hash_func
  chain_capacity :: nat

definition chain_dict_new :: "nat \<Rightarrow> rand_state \<Rightarrow> 'v chain_dict \<times> rand_state" where
  "chain_dict_new capacity g =
     (case poly2_hash_func_new g of (hf, g') \<Rightarrow>
        (\<lparr>chain_entries = replicate capacity [],
          chain_hashFunction = hf,
          chain_capacity = capacity\<rparr>, g'))"

definition chain_index :: "'v chain_dict \<Rightarrow> u32 \<Rightarrow> nat" where
  "chain_index d key = unat (poly2_hash (chain_hashFunction d) key) mod chain_capacity d"

text \<open>The loop over \<open>j\<close> in \<open>chain_dict::search\<close>, front to back through one bucket.\<close>

fun chain_scan :: "'v entry list \<Rightarrow> u32 \<Rightarrow> exn + 'v" where
  "chain_scan [] key = Inl Out_of_range"
| "chain_scan (e # es) key =
     (if entry_key e = key then Inr (entry_value e) else chain_scan es key)"

definition chain_search :: "'v chain_dict \<Rightarrow> u32 \<Rightarrow> (exn + 'v) \<times> 'v chain_dict" where
  "chain_search d key =
     (let index = chain_index d key
      in (chain_scan (chain_entries d ! index) key, d))"

definition chain_set :: "'v chain_dict \<Rightarrow> u32 \<Rightarrow> 'v \<Rightarrow> 'v chain_dict" where
  "chain_set d key val =
     (let index = chain_index d key
      in d\<lparr>chain_entries :=
             (chain_entries d)[index := chain_entries d ! index @ [Entry key val]]\<rparr>)"

text \<open>A sequence of \<open>set\<close> calls, first to last.\<close>

definition chain_set_all :: "'v chain_dict \<Rightarrow> (u32 \<times> 'v) list \<Rightarrow> 'v chain_dict" where
  "chain_set_all d kvs = fold (\<lambda>(key, val) d'. chain_set d' key val) kvs d"

subsection \<open>Linear probing\<close>

record 'v lp_dict =
  lp_entries :: "'v entry option list"
  lp_hashFunction :: poly5_hash_func
  lp_capacity :: nat

definition lp_dict_new :: "nat \<Rightarrow> rand_state \<Rightarrow> 'v lp_dict \<times> rand_state" where
  "lp_dict_new capacity g =
     (case poly5_hash_func_new g of (hf, g') \<Rightarrow>
        (\<lparr>lp_entries = replicate (2 * capacity) None,
          lp_hashFunction = hf,
          lp_capacity = 2 * capacity\<rparr>, g'))"

definition lp_index :: "'v lp_dict \<Rightarrow> u32 \<Rightarrow> nat" where
  "lp_index d key = unat (poly5_hash (lp_hashFunction d) key) mod lp_capacity d"

text \<open>
  The \<open>while\<close> loop that \<open>lp_dict::search\<close> and \<open>lp_dict::set\<close> both start with:
  it returns the index it stops at, and \<open>None\<close> when it never stops.
\<close>

partial_function (option) lp_probe :: "'v lp_dict \<Rightarrow> u32 \<Rightarrow> nat \<Rightarrow> nat option" where
  "lp_probe d key index =
     (case lp_entries d ! index of
        None \<Rightarrow> Some index
      | Some e \<Rightarrow>
          if entry_key e \<noteq> key
          then lp_probe d key ((index + 1) mod lp_capacity d)
          else Some index)"

declare lp_probe.simps [code]

definition lp_search :: "'v lp_dict \<Rightarrow> u32 \<Rightarrow> ((exn + 'v) \<times> 'v lp_dict) option" where
  "lp_search d key =
     (case lp_probe d key (lp_index d key) of
        None \<Rightarrow> None
      | Some index \<Rightarrow>
          (case lp_entries d ! index of
             None \<Rightarrow> Some (Inl Out_of_range, d)
           | Some e \<Rightarrow>
               if entry_key e = key then Some (Inr (entry_value e), d)
               else Some (Inl Out_of_range, d)))"

definition lp_set :: "'v lp_dict \<Rightarrow> u32 \<Rightarrow> 'v \<Rightarrow> (exn + 'v lp_dict) option" where
  "lp_set d key val =
     (case lp_probe d key (lp_index d key) of
        None \<Rightarrow> None
      | Some index \<Rightarrow>
          Some (Inr (d\<lparr>lp_entries := (lp_entries d)[index := Some (Entry key val)]\<rparr>)))"

subsection \<open>Cuckoo hashing\<close>

text \<open>
  \<open>cuckoo_dict::set\<close> keeps the displaced key and value in C ints and \<open>rehash\<close>
  takes a \<open>uint32_t\<close> value, so the class is modelled at the value type
  \<open>uint32_t\<close>, the one the driver instantiates; the conversions between
  \<open>uint32_t\<close> and \<open>int\<close> and back are the identity on 32 bits.
\<close>

record cuckoo_dict =
  cuckoo_tables :: "u32 entry option list list"
  cuckoo_hashFunctions :: "tabular_hash_func list"
  cuckoo_capacity :: nat

text \<open>\<open>new tabular_hash_func[2]\<close>: two default constructions, element 0 first.\<close>

definition new_hashFunctions :: "rand_state \<Rightarrow> tabular_hash_func list \<times> rand_state" where
  "new_hashFunctions g =
     (case tabular_hash_func_new g of (h0, g1) \<Rightarrow>
      case tabular_hash_func_new g1 of (h1, g2) \<Rightarrow> ([h0, h1], g2))"

definition cuckoo_dict_new :: "nat \<Rightarrow> rand_state \<Rightarrow> cuckoo_dict \<times> rand_state" where
  "cuckoo_dict_new capacity g =
     (case new_hashFunctions g of (hfs, g') \<Rightarrow>
        (\<lparr>cuckoo_tables = replicate 2 (replicate capacity None),
          cuckoo_hashFunctions = hfs,
          cuckoo_capacity = capacity\<rparr>, g'))"

definition cuckoo_index :: "cuckoo_dict \<Rightarrow> nat \<Rightarrow> u32 \<Rightarrow> nat" where
  "cuckoo_index d i key =
     unat (tabular_hash (cuckoo_hashFunctions d ! i) key) mod cuckoo_capacity d"

text \<open>The loop of \<open>cuckoo_dict::search\<close> over the table numbers still to visit.\<close>

fun cuckoo_search_loop :: "cuckoo_dict \<Rightarrow> u32 \<Rightarrow> nat list \<Rightarrow> exn + u32" where
  "cuckoo_search_loop d key [] = Inl Out_of_range"
| "cuckoo_search_loop d key (i # rest) =
     (let index = cuckoo_index d i key
      in case cuckoo_tables d ! i ! index of
           None \<Rightarrow> cuckoo_search_loop d key rest
         | Some e \<Rightarrow>
             if entry_key e = key then Inr (entry_value e)
             else cuckoo_search_loop d key rest)"

definition cuckoo_search :: "cuckoo_dict \<Rightarrow> u32 \<Rightarrow> (exn + u32) \<times> cuckoo_dict" where
  "cuckoo_search d key = (cuckoo_search_loop d key [0..<2], d)"

text \<open>
  The body of the two nested loops of \<open>rehash\<close> at table \<open>i\<close>, slot \<open>j\<close>: a live
  entry is appended to \<open>previousKeys\<close> and its slot is cleared.
\<close>

definition rehash_collect_slot ::
  "nat \<Rightarrow> nat \<Rightarrow> u32 entry list \<times> u32 entry option list list
     \<Rightarrow> u32 entry list \<times> u32 entry option list list" where
  "rehash_collect_slot i j s =
     (case s of (previousKeys, hashTable) \<Rightarrow>
        (case hashTable ! i ! j of
           None \<Rightarrow> (previousKeys, hashTable)
         | Some e \<Rightarrow> (previousKeys @ [e], hashTable[i := (hashTable ! i)[j := None]])))"

definition rehash_collect ::
  "nat \<Rightarrow> u32 entry option list list \<Rightarrow> u32 entry list \<times> u32 entry option list list" where
  "rehash_collect capacity hashTable =
     fold (\<lambda>i. fold (rehash_collect_slot i) [0..<capacity]) [0..<2] ([], hashTable)"

definition cuckoo_put :: "cuckoo_dict \<Rightarrow> nat \<Rightarrow> nat \<Rightarrow> u32 \<Rightarrow> u32 \<Rightarrow> cuckoo_dict" where
  "cuckoo_put d i index key val =
     d\<lparr>cuckoo_tables :=
         (cuckoo_tables d)[i := (cuckoo_tables d ! i)[index := Some (Entry key val)]]\<rparr>"

text \<open>
  \<open>set\<close> and \<open>rehash\<close> call each other, and nothing bounds the number of rounds, so
  the three loops take fuel: one unit for each iteration of the \<open>while\<close> loop of
  \<open>set\<close>, each call of \<open>rehash\<close> and each iteration of its last loop. \<open>None\<close>
  means that the fuel ran out. \<open>cuckoo_set_loop\<close> is the \<open>while (true)\<close> loop
  with the locals \<open>i\<close>, \<open>key\<close>, \<open>val\<close>, \<open>temp\<close>; \<open>rehash_reinsert\<close> is the loop
  over \<open>previousKeys\<close> at the end of \<open>rehash\<close>.
\<close>

fun cuckoo_set_loop ::
    "nat \<Rightarrow> cuckoo_dict \<Rightarrow> rand_state \<Rightarrow> nat \<Rightarrow> u32 \<Rightarrow> u32 \<Rightarrow> u32
       \<Rightarrow> (cuckoo_dict \<times> rand_state) option"
  and rehash ::
    "nat \<Rightarrow> cuckoo_dict \<Rightarrow> rand_state \<Rightarrow> u32 \<Rightarrow> u32 \<Rightarrow> (cuckoo_dict \<times> rand_state) option"
  and rehash_reinsert ::
    "nat \<Rightarrow> cuckoo_dict \<Rightarrow> rand_state \<Rightarrow> u32 entry list \<Rightarrow> (cuckoo_dict \<times> rand_state) option"
where
  "cuckoo_set_loop 0 d g i key val temp = None"
| "cuckoo_set_loop (Suc fuel) d g i key val temp =
     (let index = cuckoo_index d i key
      in case cuckoo_tables d ! i ! index of
           None \<Rightarrow> Some (cuckoo_put d i index key val, g)
         | Some e \<Rightarrow>
             (let d' = cuckoo_put d i index key val
              in if entry_key e = temp \<and> i = 1
                 then rehash fuel d' g (entry_key e) (entry_value e)
                 else cuckoo_set_loop fuel d' g (1 - i) (entry_key e) (entry_value e) temp))"
| "rehash 0 d g key val = None"
| "rehash (Suc fuel) d g key val =
     (case new_hashFunctions g of (hfs, g') \<Rightarrow>
      case rehash_collect (cuckoo_capacity d) (cuckoo_tables d) of (previousKeys, hashTable) \<Rightarrow>
        rehash_reinsert fuel
          (d\<lparr>cuckoo_hashFunctions := hfs, cuckoo_tables := hashTable\<rparr>) g'
          (previousKeys @ [Entry key val]))"
| "rehash_reinsert 0 d g es = None"
| "rehash_reinsert (Suc fuel) d g [] = Some (d, g)"
| "rehash_reinsert (Suc fuel) d g (e # es) =
     (case cuckoo_set_loop fuel d g 0 (entry_key e) (entry_value e) (entry_key e) of
        None \<Rightarrow> None
      | Some (d', g') \<Rightarrow> rehash_reinsert fuel d' g' es)"

definition cuckoo_set ::
  "nat \<Rightarrow> cuckoo_dict \<Rightarrow> rand_state \<Rightarrow> u32 \<Rightarrow> u32 \<Rightarrow> (cuckoo_dict \<times> rand_state) option" where
  "cuckoo_set fuel d g key val = cuckoo_set_loop fuel d g 0 key val key"

section \<open>Predicates used by the theorems\<close>

text \<open>Every entry of a chained dictionary sits in the bucket its key hashes to.\<close>

definition chain_bucket_inv :: "'v chain_dict \<Rightarrow> bool" where
  "chain_bucket_inv d \<longleftrightarrow>
     length (chain_entries d) = chain_capacity d \<and>
     (\<forall>b < chain_capacity d. \<forall>e \<in> set (chain_entries d ! b). chain_index d (entry_key e) = b)"

text \<open>Every slot of a linear-probing table holds an entry, none of them with key \<open>key\<close>.\<close>

definition lp_full_without :: "'v lp_dict \<Rightarrow> u32 \<Rightarrow> bool" where
  "lp_full_without d key \<longleftrightarrow>
     0 < lp_capacity d \<and>
     (\<forall>i < lp_capacity d. \<exists>e. lp_entries d ! i = Some e \<and> entry_key e \<noteq> key)"







text \<open>
  The value stored for the draw \<open>r\<close>, and the generator after \<open>n\<close> more calls of
  \<open>rand()\<close>.
\<close>

definition coeff_of :: "int \<Rightarrow> int" where
  "coeff_of r = uint ((word_of_int r :: u32) mod (LARGE_PRIME - 1))"

definition rand_skip :: "nat \<Rightarrow> rand_state \<Rightarrow> rand_state" where
  "rand_skip n g = g\<lparr>rand_pos := rand_pos g + n\<rparr>"

text \<open>A sequence of draws for the example runs.\<close>

definition demo_rand :: rand_state where
  "demo_rand = \<lparr>rand_seq = \<lambda>n. int (n * n div 3), rand_pos = 0\<rparr>"

section \<open>The tabular hash stays below \<open>2^31\<close>\<close>

lemma rand_coeff_range: "rand_coeff g = (c, g') \<Longrightarrow> 0 \<le> c \<and> c < 2147483646"
proof -
  assume a: "rand_coeff g = (c, g')"
  have "(word_of_int (fst (rand g)) :: u32) mod 2147483646 < 2147483646"
    by (rule word_mod_less_divisor) simp
  then have "uint ((word_of_int (fst (rand g)) :: u32) mod 2147483646) < 2147483646"
    by (simp add: word_less_def)
  with a show ?thesis
    by (auto simp: rand_coeff_def LARGE_PRIME_def split: prod.splits)
qed

lemma fill_coeffs_range:
  "fill_coeffs n g = (cs, g') \<Longrightarrow>
     length cs = n \<and> (\<forall>c \<in> set cs. 0 \<le> c \<and> c < 2147483646)"
proof (induction n arbitrary: g cs g')
  case 0
  then show ?case by simp
next
  case (Suc n)
  obtain c g1 where c: "rand_coeff g = (c, g1)" by (cases "rand_coeff g")
  obtain cs1 g2 where r: "fill_coeffs n g1 = (cs1, g2)" by (cases "fill_coeffs n g1")
  from Suc.prems c r have cs: "cs = c # cs1" by simp
  from Suc.IH [OF r] rand_coeff_range [OF c] cs show ?case by simp
qed

lemma fill_rows_range:
  "fill_rows n m g = (rows, g') \<Longrightarrow>
     length rows = n \<and>
     (\<forall>row \<in> set rows. length row = m \<and> (\<forall>c \<in> set row. 0 \<le> c \<and> c < 2147483646))"
proof (induction n arbitrary: g rows g')
  case 0
  then show ?case by simp
next
  case (Suc n)
  obtain row g1 where c: "fill_coeffs m g = (row, g1)" by (cases "fill_coeffs m g")
  obtain rows1 g2 where r: "fill_rows n m g1 = (rows1, g2)" by (cases "fill_rows n m g1")
  from Suc.prems c r have cs: "rows = row # rows1" by simp
  from Suc.IH [OF r] fill_coeffs_range [OF c] cs show ?case by simp
qed

lemma coeff_top_bit_clear:
  "0 \<le> c \<Longrightarrow> c < 2147483646 \<Longrightarrow> take_bit 31 (word_of_int c :: u32) = word_of_int c"
proof -
  assume a: "0 \<le> c" "c < 2147483646"
  then have "take_bit 31 c = c" by (simp add: take_bit_int_eq_self)
  then show ?thesis by (metis take_bit_of_int)
qed

lemma byte_index: "unat ((w :: u32) AND 0xFF) < 256"
proof -
  have "w AND 0xFF \<le> 0xFF" by (rule word_and_le1)
  then show ?thesis by (simp add: word_le_nat_alt)
qed

lemma tabular_take_bit:
  assumes "tabular_hash_func_new g = (h, g')"
  shows "take_bit 31 (tabular_hash h key) = tabular_hash h key"
proof -
  obtain rows where r: "fill_rows 4 256 g = (rows, g')" and h: "h = \<lparr>tab_t = rows\<rparr>"
    using assms by (auto simp: tabular_hash_func_new_def split: prod.splits)
  from fill_rows_range [OF r] have len: "length rows = 4"
    and rows: "\<And>row. row \<in> set rows \<Longrightarrow>
                 length row = 256 \<and> (\<forall>c \<in> set row. 0 \<le> c \<and> c < 2147483646)"
    by auto
  have cell: "take_bit 31 (word_of_int (rows ! i ! unat (w AND 0xFF)) :: u32)
                = word_of_int (rows ! i ! unat (w AND 0xFF))" if "i < 4" for i and w :: u32
  proof -
    from that len have "rows ! i \<in> set rows" by simp
    from rows [OF this] byte_index [of w]
    have "rows ! i ! unat (w AND 0xFF) \<in> set (rows ! i)"
      and "\<forall>c \<in> set (rows ! i). 0 \<le> c \<and> c < 2147483646"
      by simp_all
    then show ?thesis using coeff_top_bit_clear by blast
  qed
  have upt: "[0..<4] = [0, 1, 2, Suc 2]" by (simp add: upt_rec)
  show ?thesis
    unfolding tabular_hash_def h upt
    using cell [of 0] cell [of 1] cell [of 2] cell [of 3]
    by (simp add: numeral_3_eq_3)
qed

text \<open>
  C10. Whatever \<open>rand()\<close> returns while the constructor of \<open>tabular_hash_func\<close>
  fills its 1024 table words, \<open>hash\<close> of the constructed function is strictly
  below \<open>2^31\<close> for every key: each word is a remainder modulo \<open>LARGE_PRIME - 1\<close>,
  and XOR keeps a clear top bit clear.
\<close>

theorem tabular_hash_below_2p31:
  "tabular_hash (fst (tabular_hash_func_new g)) key < 2 ^ 31"
  using tabular_take_bit [of g "fst (tabular_hash_func_new g)" "snd (tabular_hash_func_new g)" key]
  by (simp add: take_bit_eq_mask mask_eq_iff_w2p word_size)

section \<open>Separate chaining: the bucket invariant and repeated keys\<close>

lemma chain_index_less: "0 < chain_capacity d \<Longrightarrow> chain_index d key < chain_capacity d"
  by (simp add: chain_index_def)

lemma chain_set_fields:
  "chain_hashFunction (chain_set d key val) = chain_hashFunction d"
  "chain_capacity (chain_set d key val) = chain_capacity d"
  by (simp_all add: chain_set_def Let_def)

lemma chain_set_index: "chain_index (chain_set d key val) k = chain_index d k"
  by (simp add: chain_index_def chain_set_fields)

lemma chain_set_inv:
  assumes "0 < chain_capacity d" and "chain_bucket_inv d"
  shows "chain_bucket_inv (chain_set d key val)"
proof -
  let ?i = "chain_index d key"
  from assms(1) have i: "?i < chain_capacity d" by (rule chain_index_less)
  from assms(2) have len: "length (chain_entries d) = chain_capacity d"
    and inv: "\<And>b e. b < chain_capacity d \<Longrightarrow> e \<in> set (chain_entries d ! b) \<Longrightarrow>
                 chain_index d (entry_key e) = b"
    by (auto simp: chain_bucket_inv_def)
  have ent: "chain_entries (chain_set d key val)
               = (chain_entries d)[?i := chain_entries d ! ?i @ [Entry key val]]"
    by (simp add: chain_set_def Let_def)
  show ?thesis
    unfolding chain_bucket_inv_def chain_set_index chain_set_fields ent
    using len i inv by (auto simp: nth_list_update)
qed

lemma chain_set_all_inv:
  "0 < chain_capacity d \<Longrightarrow> chain_bucket_inv d \<Longrightarrow>
     chain_bucket_inv (chain_set_all d kvs) \<and>
     chain_capacity (chain_set_all d kvs) = chain_capacity d \<and>
     chain_hashFunction (chain_set_all d kvs) = chain_hashFunction d"
proof (induction kvs arbitrary: d)
  case Nil
  then show ?case by (simp add: chain_set_all_def)
next
  case (Cons kv kvs)
  obtain key val where kv: "kv = (key, val)" by (cases kv)
  have step: "chain_set_all d (kv # kvs) = chain_set_all (chain_set d key val) kvs"
    by (simp add: chain_set_all_def kv)
  from Cons.prems have "0 < chain_capacity (chain_set d key val)"
    and "chain_bucket_inv (chain_set d key val)"
    by (simp_all add: chain_set_fields chain_set_inv)
  from Cons.IH [OF this] show ?case
    by (simp add: step chain_set_fields)
qed

lemma chain_new_inv:
  "chain_bucket_inv (fst (chain_dict_new n g)) \<and> chain_capacity (fst (chain_dict_new n g)) = n"
  by (auto simp: chain_dict_new_def chain_bucket_inv_def split: prod.splits)

text \<open>
  C7. Start from \<open>chain_dict(n)\<close> with \<open>n > 0\<close> and make any sequence of \<open>set\<close>
  calls. The dictionary still has \<open>n\<close> buckets, the capacity and the hash function
  drawn at construction are unchanged, and every entry stored in bucket \<open>b\<close> has a
  key with \<open>hash(key) mod n = b\<close>.
\<close>

theorem chain_bucket_invariant:
  assumes "0 < n" and "d0 = fst (chain_dict_new n g)" and "d = chain_set_all d0 kvs"
  shows "length (chain_entries d) = n \<and> chain_capacity d = n \<and>
         chain_hashFunction d = chain_hashFunction d0 \<and>
         (\<forall>b < n. \<forall>e \<in> set (chain_entries d ! b).
            unat (poly2_hash (chain_hashFunction d0) (entry_key e)) mod n = b)"
proof -
  have i0: "chain_bucket_inv d0" and c0: "chain_capacity d0 = n"
    unfolding assms(2) by (simp_all add: chain_new_inv)
  from assms(1) c0 have "0 < chain_capacity d0" by simp
  from chain_set_all_inv [OF this i0, of kvs] assms(3) c0
  have inv: "chain_bucket_inv d" and c: "chain_capacity d = n"
    and h: "chain_hashFunction d = chain_hashFunction d0"
    by simp_all
  from inv c h show ?thesis
    by (simp add: chain_bucket_inv_def chain_index_def)
qed

theorem chain_bucket_invariant_witness:
  "chain_entries (chain_set_all (fst (chain_dict_new 4 \<lparr>rand_seq = \<lambda>n. int n + 1, rand_pos = 0\<rparr>))
       [(1, 10), (5, 50), (2, 7 :: u32)])
     = [[], [Entry 2 7], [], [Entry 1 10, Entry 5 50]] \<and>
   chain_capacity (chain_set_all (fst (chain_dict_new 4 \<lparr>rand_seq = \<lambda>n. int n + 1, rand_pos = 0\<rparr>))
       [(1, 10), (5, 50), (2, 7 :: u32)]) = 4 \<and>
   unat (poly2_hash (chain_hashFunction (fst (chain_dict_new 4 \<lparr>rand_seq = \<lambda>n. int n + 1, rand_pos = 0\<rparr>) :: u32 chain_dict))
           2) mod 4 = 1 \<and>
   unat (poly2_hash (chain_hashFunction (fst (chain_dict_new 4 \<lparr>rand_seq = \<lambda>n. int n + 1, rand_pos = 0\<rparr>) :: u32 chain_dict))
           5) mod 4 = 3"
proof -
  let ?start = "fst (chain_dict_new 4 \<lparr>rand_seq = \<lambda>n. int n + 1, rand_pos = 0\<rparr>) :: u32 chain_dict"
  let ?final = "chain_set_all ?start [(1, 10), (5, 50), (2, 7)]"
  have run: "chain_entries ?final = [[], [Entry 2 7], [], [Entry 1 10, Entry 5 50]]"
    by code_simp
  have pos: "(0::nat) < 4" by simp
  note inv = chain_bucket_invariant [OF pos refl refl, of "\<lparr>rand_seq = \<lambda>n. int n + 1, rand_pos = 0\<rparr>" "[(1, 10), (5, 50), (2, 7 :: u32)]"]
  from inv have cap: "chain_capacity ?final = 4" by simp
  from inv have all: "\<forall>b < 4. \<forall>e \<in> set (chain_entries ?final ! b).
      unat (poly2_hash (chain_hashFunction ?start) (entry_key e)) mod 4 = b"
    by simp
  from all have "\<forall>e \<in> set (chain_entries ?final ! 1).
      unat (poly2_hash (chain_hashFunction ?start) (entry_key e)) mod 4 = 1"
    by simp
  then have b1: "unat (poly2_hash (chain_hashFunction ?start) 2) mod 4 = 1"
    by (simp add: run)
  from all have "\<forall>e \<in> set (chain_entries ?final ! 3).
      unat (poly2_hash (chain_hashFunction ?start) (entry_key e)) mod 4 = 3"
    by simp
  then have b3: "unat (poly2_hash (chain_hashFunction ?start) 5) mod 4 = 3"
    by (simp add: run)
  from run cap b1 b3 show ?thesis by (intro conjI)
qed

text \<open>
  C1. The claim asks that after \<open>set(k, v)\<close> and then \<open>set(k, v2)\<close>, \<open>search(k)\<close> returns
  \<open>v2\<close>, for every variant. \<open>chain_dict::set\<close> only appends to the bucket and
  \<open>chain_dict::search\<close> returns the first match: in \<open>chain_dict(1)\<close>, whatever the hash
  function drawn, after \<open>set(1, 10)\<close> and \<open>set(1, 20)\<close> the call \<open>search(1)\<close> returns 10.
\<close>

theorem chain_set_twice_first_value:
  "fst (chain_search (chain_set (chain_set (fst (chain_dict_new 1 g)) 1 10) 1 20) 1) = Inr (10 :: u32)"
  by (simp add: chain_dict_new_def chain_search_def chain_set_def chain_index_def Let_def
        split: prod.splits)

section \<open>Linear probing on a full table\<close>

lemma lp_probe_Some_not_full:
  assumes "lp_probe d key index = Some y"
  shows "\<not> (lp_full_without d key \<and> index < lp_capacity d)"
proof (rule lp_probe.raw_induct
        [where P = "\<lambda>d key index y. \<not> (lp_full_without d key \<and> index < lp_capacity d)",
         OF _ assms])
  fix probe :: "'a lp_dict \<Rightarrow> u32 \<Rightarrow> nat \<Rightarrow> nat option" and d key index y
  assume IH: "\<And>d key index y. probe d key index = Some y \<Longrightarrow>
                \<not> (lp_full_without d key \<and> index < lp_capacity d)"
    and step: "(case lp_entries d ! index of
                  None \<Rightarrow> Some index
                | Some e \<Rightarrow>
                    if entry_key e \<noteq> key
                    then probe d key ((index + 1) mod lp_capacity d)
                    else Some index) = Some y"
  show "\<not> (lp_full_without d key \<and> index < lp_capacity d)"
  proof
    assume f: "lp_full_without d key \<and> index < lp_capacity d"
    then obtain e where e: "lp_entries d ! index = Some e" "entry_key e \<noteq> key"
      by (auto simp: lp_full_without_def)
    with step have "probe d key ((index + 1) mod lp_capacity d) = Some y" by simp
    from IH [OF this] f show False by (auto simp: lp_full_without_def)
  qed
qed

lemma lp_probe_full_None:
  "lp_full_without d key \<Longrightarrow> index < lp_capacity d \<Longrightarrow> lp_probe d key index = None"
  using lp_probe_Some_not_full [of d key index] by (cases "lp_probe d key index") auto

lemma lp_index_less: "0 < lp_capacity d \<Longrightarrow> lp_index d key < lp_capacity d"
  by (simp add: lp_index_def)

lemma lp_two_sets:
  "lp_set (fst (lp_dict_new 1 \<lparr>rand_seq = \<lambda>n. int n + 1, rand_pos = 0\<rparr>)) 0 (1::u32)
     = Some (Inr \<lparr>lp_entries = [None, Some (Entry 0 1)], lp_hashFunction = \<lparr>p5_a = [1, 2, 3, 4, 5]\<rparr>,
                  lp_capacity = 2\<rparr>)"
  "lp_set \<lparr>lp_entries = [None, Some (Entry 0 1)], lp_hashFunction = \<lparr>p5_a = [1, 2, 3, 4, 5]\<rparr>,
                  lp_capacity = 2\<rparr> 1 (2::u32)
     = Some (Inr \<lparr>lp_entries = [Some (Entry 1 2), Some (Entry 0 1)],
                  lp_hashFunction = \<lparr>p5_a = [1, 2, 3, 4, 5]\<rparr>, lp_capacity = 2\<rparr>)"
  by code_simp+

text \<open>
  C3. The claim asks that \<open>set\<close> of an absent key on a completely full table fails with
  the capacity error. In the code the probe loop of \<open>lp_dict::set\<close> has no such guard:
  when every slot holds an entry with another key, \<open>set\<close> never returns, so it does
  not throw either.
\<close>

theorem lp_set_full_never_returns:
  assumes "0 < lp_capacity d"
    and "\<forall>i < lp_capacity d. \<exists>e. lp_entries d ! i = Some e \<and> entry_key e \<noteq> key"
  shows "lp_set d key val = None"
proof -
  from assms have "lp_full_without d key" by (simp add: lp_full_without_def)
  from lp_probe_full_None [OF this lp_index_less [OF assms(1)]]
  show ?thesis by (simp add: lp_set_def)
qed

theorem lp_set_full_never_returns_witness:
  "lp_set (fst (lp_dict_new 1 \<lparr>rand_seq = \<lambda>n. int n + 1, rand_pos = 0\<rparr>)) 0 (1::u32)
     = Some (Inr \<lparr>lp_entries = [None, Some (Entry 0 1)], lp_hashFunction = \<lparr>p5_a = [1, 2, 3, 4, 5]\<rparr>,
                  lp_capacity = 2\<rparr>) \<and>
   lp_set \<lparr>lp_entries = [None, Some (Entry 0 1)], lp_hashFunction = \<lparr>p5_a = [1, 2, 3, 4, 5]\<rparr>,
                  lp_capacity = 2\<rparr> 1 (2::u32)
     = Some (Inr \<lparr>lp_entries = [Some (Entry 1 2), Some (Entry 0 1)],
                  lp_hashFunction = \<lparr>p5_a = [1, 2, 3, 4, 5]\<rparr>, lp_capacity = 2\<rparr>) \<and>
   lp_set \<lparr>lp_entries = [Some (Entry 1 2), Some (Entry 0 1)],
           lp_hashFunction = \<lparr>p5_a = [1, 2, 3, 4, 5]\<rparr>, lp_capacity = 2\<rparr> 2 (3::u32) = None"
proof -
  let ?d = "\<lparr>lp_entries = [Some (Entry 1 2), Some (Entry 0 (1::u32))],
           lp_hashFunction = \<lparr>p5_a = [1, 2, 3, 4, 5]\<rparr>, lp_capacity = 2\<rparr>"
  have c: "0 < lp_capacity ?d" by simp
  have f: "\<forall>i < lp_capacity ?d. \<exists>e. lp_entries ?d ! i = Some e \<and> entry_key e \<noteq> 2"
    by (simp add: less_Suc_eq numeral_2_eq_2)
  from lp_set_full_never_returns [OF c f, of 3] lp_two_sets show ?thesis by simp
qed


text \<open>
  C4. The claim asks that \<open>search\<close> fails with the missing-key error exactly when no
  live entry has the key. \<open>lp_dict::search\<close> runs the same unguarded probe loop: on a
  completely full table without the key it never returns, so no error is signalled.
\<close>

theorem lp_search_full_never_returns:
  assumes "0 < lp_capacity d"
    and "\<forall>i < lp_capacity d. \<exists>e. lp_entries d ! i = Some e \<and> entry_key e \<noteq> key"
  shows "lp_search d key = None"
proof -
  from assms have "lp_full_without d key" by (simp add: lp_full_without_def)
  from lp_probe_full_None [OF this lp_index_less [OF assms(1)]]
  show ?thesis by (simp add: lp_search_def)
qed

theorem lp_search_full_never_returns_witness:
  "lp_set (fst (lp_dict_new 1 \<lparr>rand_seq = \<lambda>n. int n + 1, rand_pos = 0\<rparr>)) 0 (1::u32)
     = Some (Inr \<lparr>lp_entries = [None, Some (Entry 0 1)], lp_hashFunction = \<lparr>p5_a = [1, 2, 3, 4, 5]\<rparr>,
                  lp_capacity = 2\<rparr>) \<and>
   lp_set \<lparr>lp_entries = [None, Some (Entry 0 1)], lp_hashFunction = \<lparr>p5_a = [1, 2, 3, 4, 5]\<rparr>,
                  lp_capacity = 2\<rparr> 1 (2::u32)
     = Some (Inr \<lparr>lp_entries = [Some (Entry 1 2), Some (Entry 0 1)],
                  lp_hashFunction = \<lparr>p5_a = [1, 2, 3, 4, 5]\<rparr>, lp_capacity = 2\<rparr>) \<and>
   lp_search \<lparr>lp_entries = [Some (Entry 1 2), Some (Entry 0 (1::u32))],
              lp_hashFunction = \<lparr>p5_a = [1, 2, 3, 4, 5]\<rparr>, lp_capacity = 2\<rparr> 2 = None"
proof -
  let ?d = "\<lparr>lp_entries = [Some (Entry 1 2), Some (Entry 0 (1::u32))],
           lp_hashFunction = \<lparr>p5_a = [1, 2, 3, 4, 5]\<rparr>, lp_capacity = 2\<rparr>"
  have c: "0 < lp_capacity ?d" by simp
  have f: "\<forall>i < lp_capacity ?d. \<exists>e. lp_entries ?d ! i = Some e \<and> entry_key e \<noteq> 2"
    by (simp add: less_Suc_eq numeral_2_eq_2)
  from lp_search_full_never_returns [OF c f] lp_two_sets show ?thesis by simp
qed

section \<open>Evaluating constructed hash functions\<close>

lemma rand_skip_fields:
  "rand_seq (rand_skip n g) = rand_seq g" "rand_pos (rand_skip n g) = rand_pos g + n"
  by (simp_all add: rand_skip_def)

lemma rand_skip_skip: "rand_skip m (rand_skip n g) = rand_skip (n + m) g"
  by (simp add: rand_skip_def add.assoc)

lemma rand_coeff_eval:
  "rand_coeff g = (coeff_of (rand_seq g (rand_pos g)), rand_skip 1 g)"
  by (simp add: rand_coeff_def rand_def coeff_of_def rand_skip_def)

lemma fill_coeffs_eval:
  "fill_coeffs n g = (map (\<lambda>k. coeff_of (rand_seq g (rand_pos g + k))) [0..<n], rand_skip n g)"
proof (induction n arbitrary: g)
  case 0
  show ?case by (simp add: rand_skip_def)
next
  case (Suc n)
  have "map (\<lambda>k. coeff_of (rand_seq g (rand_pos g + k))) [0..<Suc n]
          = coeff_of (rand_seq g (rand_pos g))
              # map (\<lambda>k. coeff_of (rand_seq g (Suc (rand_pos g) + k))) [0..<n]"
    by (simp add: upt_conv_Cons map_Suc_upt [symmetric] del: upt_Suc)
  then show ?case
    by (simp add: rand_coeff_eval Suc.IH rand_skip_fields rand_skip_skip del: upt_Suc)
qed

lemma fill_rows_eval:
  "fill_rows n m g
     = (map (\<lambda>i. map (\<lambda>k. coeff_of (rand_seq g (rand_pos g + m * i + k))) [0..<m]) [0..<n],
        rand_skip (m * n) g)"
proof (induction n arbitrary: g)
  case 0
  show ?case by (simp add: rand_skip_def)
next
  case (Suc n)
  have "map (\<lambda>i. map (\<lambda>k. coeff_of (rand_seq g (rand_pos g + m * i + k))) [0..<m]) [0..<Suc n]
          = map (\<lambda>k. coeff_of (rand_seq g (rand_pos g + k))) [0..<m]
              # map (\<lambda>i. map (\<lambda>k. coeff_of (rand_seq g (rand_pos g + m + m * i + k))) [0..<m]) [0..<n]"
    by (simp add: upt_conv_Cons map_Suc_upt [symmetric] add.assoc del: upt_Suc)
  then show ?case
    by (simp add: fill_coeffs_eval Suc.IH rand_skip_fields rand_skip_skip add.commute del: upt_Suc)
qed

lemma tabular_new_snd: "snd (tabular_hash_func_new g) = rand_skip 1024 g"
  by (simp add: tabular_hash_func_new_def fill_rows_eval)

lemma tabular_hash_eval:
  "tabular_hash (fst (tabular_hash_func_new g)) key =
     fold (\<lambda>i hashValue. hashValue XOR
             word_of_int (coeff_of (rand_seq g
               (rand_pos g + 256 * i + unat (drop_bit (i * 8) key AND 0xFF)))))
          [0..<4] 0"
proof -
  have t: "tab_t (fst (tabular_hash_func_new g))
             = map (\<lambda>i. map (\<lambda>k. coeff_of (rand_seq g (rand_pos g + 256 * i + k))) [0..<256]) [0..<4]"
    by (simp add: tabular_hash_func_new_def fill_rows_eval)
  have cell: "tab_t (fst (tabular_hash_func_new g)) ! i ! unat (w AND 0xFF)
                = coeff_of (rand_seq g (rand_pos g + 256 * i + unat (w AND 0xFF)))"
    if "i < 4" for i and w :: u32
    unfolding t using that byte_index [of w] by simp
  have upt: "[0..<4] = [0, 1, 2, Suc 2]" by (simp add: upt_rec)
  show ?thesis
    unfolding tabular_hash_def upt
    using cell [of 0] cell [of 1] cell [of 2] cell [of 3]
    by (simp add: numeral_3_eq_3)
qed

lemma new_hashFunctions_eval:
  "new_hashFunctions g =
     ([fst (tabular_hash_func_new g), fst (tabular_hash_func_new (rand_skip 1024 g))],
      rand_skip 2048 g)"
proof -
  obtain h0 where a: "tabular_hash_func_new g = (h0, rand_skip 1024 g)"
    using tabular_new_snd [of g] by (cases "tabular_hash_func_new g") simp
  obtain h1 where b: "tabular_hash_func_new (rand_skip 1024 g) = (h1, rand_skip 2048 g)"
    using tabular_new_snd [of "rand_skip 1024 g"]
    by (cases "tabular_hash_func_new (rand_skip 1024 g)") (simp add: rand_skip_skip)
  show ?thesis by (simp add: new_hashFunctions_def a b)
qed

lemma cuckoo_set_loop_numeral:
  "cuckoo_set_loop (numeral k) d g i key val temp =
     (let index = cuckoo_index d i key
      in case cuckoo_tables d ! i ! index of
           None \<Rightarrow> Some (cuckoo_put d i index key val, g)
         | Some e \<Rightarrow>
             (let d' = cuckoo_put d i index key val
              in if entry_key e = temp \<and> i = 1
                 then rehash (pred_numeral k) d' g (entry_key e) (entry_value e)
                 else cuckoo_set_loop (pred_numeral k) d' g (1 - i) (entry_key e) (entry_value e) temp))"
  by (simp only: numeral_eq_Suc cuckoo_set_loop.simps)

lemma rehash_reinsert_numeral:
  "rehash_reinsert (numeral k) d g [] = Some (d, g)"
  "rehash_reinsert (numeral k) d g (e # es) =
     (case cuckoo_set_loop (pred_numeral k) d g 0 (entry_key e) (entry_value e) (entry_key e) of
        None \<Rightarrow> None
      | Some (d', g') \<Rightarrow> rehash_reinsert (pred_numeral k) d' g' es)"
  by (simp_all only: numeral_eq_Suc rehash_reinsert.simps)

lemma rehash_numeral:
  "rehash (numeral k) d g key val =
     (case new_hashFunctions g of (hfs, g') \<Rightarrow>
      case rehash_collect (cuckoo_capacity d) (cuckoo_tables d) of (previousKeys, hashTable) \<Rightarrow>
        rehash_reinsert (pred_numeral k)
          (d\<lparr>cuckoo_hashFunctions := hfs, cuckoo_tables := hashTable\<rparr>) g'
          (previousKeys @ [Entry key val]))"
  by (simp only: numeral_eq_Suc rehash.simps)

lemmas demo_eval =
  cuckoo_set_def cuckoo_set_loop_numeral rehash_numeral rehash_reinsert_numeral
  new_hashFunctions_eval rehash_collect_def rehash_collect_slot_def upt_rec
  cuckoo_index_def cuckoo_put_def Let_def rand_skip_skip

lemma demo_index_first:
  "unat (tabular_hash (fst (tabular_hash_func_new demo_rand)) 0) mod 2 = 0"
  "unat (tabular_hash (fst (tabular_hash_func_new demo_rand)) 5) mod 2 = 0"
  "unat (tabular_hash (fst (tabular_hash_func_new demo_rand)) 6) mod 2 = 0"
  "unat (tabular_hash (fst (tabular_hash_func_new (rand_skip 1024 demo_rand))) 0) mod 2 = 1"
  "unat (tabular_hash (fst (tabular_hash_func_new (rand_skip 1024 demo_rand))) 5) mod 2 = 1"
  "unat (tabular_hash (fst (tabular_hash_func_new (rand_skip 1024 demo_rand))) 6) mod 2 = 1"
  by (simp_all add: tabular_hash_eval demo_rand_def coeff_of_def LARGE_PRIME_def upt_rec rand_skip_def)

lemma demo_index_second:
  "unat (tabular_hash (fst (tabular_hash_func_new (rand_skip 2048 demo_rand))) 0) mod 2 = 1"
  "unat (tabular_hash (fst (tabular_hash_func_new (rand_skip 2048 demo_rand))) 5) mod 2 = 0"
  "unat (tabular_hash (fst (tabular_hash_func_new (rand_skip 2048 demo_rand))) 6) mod 2 = 1"
  "unat (tabular_hash (fst (tabular_hash_func_new (rand_skip 3072 demo_rand))) 0) mod 2 = 0"
  "unat (tabular_hash (fst (tabular_hash_func_new (rand_skip 3072 demo_rand))) 5) mod 2 = 0"
  "unat (tabular_hash (fst (tabular_hash_func_new (rand_skip 3072 demo_rand))) 6) mod 2 = 0"
  by (simp_all add: tabular_hash_eval demo_rand_def coeff_of_def LARGE_PRIME_def upt_rec rand_skip_def)


lemma demo_third_set:
  "cuckoo_set 12
     \<lparr>cuckoo_tables = [[Some (Entry 5 6), None], [None, Some (Entry 0 1)]],
      cuckoo_hashFunctions = fst (new_hashFunctions demo_rand),
      cuckoo_capacity = 2\<rparr>
     (rand_skip 2048 demo_rand) 6 7
   = Some (\<lparr>cuckoo_tables = [[Some (Entry 5 6), Some (Entry 6 7)], [Some (Entry 0 1), None]],
            cuckoo_hashFunctions = fst (new_hashFunctions (rand_skip 2048 demo_rand)),
            cuckoo_capacity = 2\<rparr>,
           rand_skip 4096 demo_rand)"
  by (simp add: demo_eval demo_index_first demo_index_second)

lemma demo_new:
  "cuckoo_dict_new 2 demo_rand
     = (\<lparr>cuckoo_tables = [[None, None], [None, None]],
         cuckoo_hashFunctions = fst (new_hashFunctions demo_rand),
         cuckoo_capacity = 2\<rparr>, rand_skip 2048 demo_rand)"
  by (simp add: cuckoo_dict_new_def new_hashFunctions_eval numeral_2_eq_2)

lemma demo_first_sets:
  "cuckoo_set 12
     \<lparr>cuckoo_tables = [[None, None], [None, None]],
      cuckoo_hashFunctions = fst (new_hashFunctions demo_rand),
      cuckoo_capacity = 2\<rparr> (rand_skip 2048 demo_rand) 0 1
     = Some (\<lparr>cuckoo_tables = [[Some (Entry 0 1), None], [None, None]],
         cuckoo_hashFunctions = fst (new_hashFunctions demo_rand),
         cuckoo_capacity = 2\<rparr>, rand_skip 2048 demo_rand)"
  "cuckoo_set 12
     \<lparr>cuckoo_tables = [[Some (Entry 0 1), None], [None, None]],
         cuckoo_hashFunctions = fst (new_hashFunctions demo_rand),
         cuckoo_capacity = 2\<rparr> (rand_skip 2048 demo_rand) 5 6
     = Some (\<lparr>cuckoo_tables = [[Some (Entry 5 6), None], [None, Some (Entry 0 1)]],
         cuckoo_hashFunctions = fst (new_hashFunctions demo_rand),
         cuckoo_capacity = 2\<rparr>, rand_skip 2048 demo_rand)"
  by (simp_all add: demo_eval demo_index_first demo_index_second)


section \<open>Cuckoo hashing: search\<close>





section \<open>Search leaves the dictionary as it was\<close>

text \<open>
  C9. \<open>search\<close> does not change the dictionary, in any of the four variants and
  whether it finds the key or throws: the record left behind is the record it was
  called on. For linear probing this is said of every call that returns.
\<close>

theorem search_leaves_dictionary_unchanged:
  "snd (naive_search nd key) = nd \<and>
   snd (chain_search cd key) = cd \<and>
   snd (cuckoo_search qd key) = qd \<and>
   (\<forall>r ld'. lp_search ld key = Some (r, ld') \<longrightarrow> ld' = ld)"
  by (auto simp: naive_search_def chain_search_def cuckoo_search_def lp_search_def Let_def
        split: option.splits if_splits)


theorem search_leaves_dictionary_unchanged_witness:
  "snd (naive_search (naive_set (naive_dict_new 4) 0 (1::u32)) 0) = naive_set (naive_dict_new 4) 0 1 \<and>
   snd (chain_search (chain_set (fst (chain_dict_new 4 demo_rand)) 1 (2::u32)) 0)
     = chain_set (fst (chain_dict_new 4 demo_rand)) 1 2 \<and>
   snd (cuckoo_search (fst (cuckoo_dict_new 2 demo_rand)) 0) = fst (cuckoo_dict_new 2 demo_rand) \<and>
   lp_search \<lparr>lp_entries = [Some (Entry 1 2), Some (Entry 0 (1::u32))],
              lp_hashFunction = \<lparr>p5_a = [1, 2, 3, 4, 5]\<rparr>, lp_capacity = 2\<rparr> 0
     = Some (Inr 1, \<lparr>lp_entries = [Some (Entry 1 2), Some (Entry 0 1)],
                      lp_hashFunction = \<lparr>p5_a = [1, 2, 3, 4, 5]\<rparr>, lp_capacity = 2\<rparr>)"
proof -
  let ?l = "\<lparr>lp_entries = [Some (Entry 1 2), Some (Entry 0 (1::u32))],
             lp_hashFunction = \<lparr>p5_a = [1, 2, 3, 4, 5]\<rparr>, lp_capacity = 2\<rparr>"
  have "fst (the (lp_search ?l 0)) = Inr 1" and "lp_search ?l 0 \<noteq> None"
    by code_simp+
  then obtain l' where run: "lp_search ?l 0 = Some (Inr 1, l')"
    by (cases "lp_search ?l 0") auto
  note frame = search_leaves_dictionary_unchanged
    [of "naive_set (naive_dict_new 4) 0 (1::u32)" 0
        "chain_set (fst (chain_dict_new 4 demo_rand)) 1 (2::u32)"
        "fst (cuckoo_dict_new 2 demo_rand)" ?l]
  from frame run have "l' = ?l" by blast
  with frame run show ?thesis by simp
qed

section \<open>Cuckoo hashing: a key set twice\<close>

text \<open>
  C2. The claim asks that, between \<open>set\<close> calls, each live key of a cuckoo dictionary
  occupies at most one slot across both tables. \<open>cuckoo_dict::set\<close> never looks for
  the key it is given: in \<open>cuckoo_dict(1)\<close>, whatever the hash functions drawn, after
  \<open>set(5, 10)\<close> and \<open>set(5, 20)\<close> key 5 is live in table 0 and in table 1.
\<close>

theorem cuckoo_set_same_key_twice:
  "Option.bind (cuckoo_set 3 (fst (cuckoo_dict_new 1 g)) (snd (cuckoo_dict_new 1 g)) 5 10)
     (\<lambda>(d1, g1). map_option (cuckoo_tables \<circ> fst) (cuckoo_set 3 d1 g1 5 20))
   = Some [[Some (Entry 5 20)], [Some (Entry 5 10)]]"
  by (simp add: cuckoo_set_def cuckoo_dict_new_def cuckoo_index_def cuckoo_put_def Let_def
        numeral_3_eq_3 numeral_2_eq_2 split: prod.splits)

section \<open>Cuckoo hashing: rehash keeps every key\<close>






















end
